theory Spec2Isabelle
  imports Main "HOL-Library.Sublist"
begin

section \<open>The operating-system interface used by \<open>main.py\<close>\<close>

text \<open>
  The script \<open>main.py\<close> empties the Adobe CameraRaw \<open>Cache2\<close> folder. Everything it does
  goes through \<open>pathlib\<close> and \<open>os\<close>, so the embedding starts with a model of the part of
  the file system those calls see, with POSIX path syntax (\<open>os.sep = "/"\<close>):

  \<^item> a path is the list of its components below the root, \<open>[]\<close> being the root itself;
  \<^item> the file system is an association list from the physical location of an entry to
    what is stored there: a regular file, a directory, or a symbolic link holding the
    absolute path it points to. The order of the list is the order in which the
    directory scan reports entries, which the operating system does not specify;
  \<^item> \<open>denied\<close> lists the entries the operating system refuses to remove (no permission,
    file in use): \<open>unlink\<close> and \<open>rmdir\<close> raise \<open>PermissionError\<close> on them.

  File contents, timestamps, hard links and other processes are not modelled.
\<close>

type_synonym path = "string list"

datatype node = File | Dir | Link path

type_synonym filesystem = "(path \<times> node) list"

datatype pyerr =
    TypeError
  | RuntimeError
  | FileNotFoundError
  | IsADirectoryError
  | NotADirectoryError
  | PermissionError
  | DirectoryNotEmpty

text \<open>\<open>os.lstat\<close>: what is stored at a location, without following a final link.\<close>

definition lstat :: "filesystem \<Rightarrow> path \<Rightarrow> node option" where
  "lstat fs p = (if p = [] then Some Dir else map_of fs p)"

text \<open>
  The kernel gives up after following this many symbolic links (\<open>ELOOP\<close>); \<open>Path.resolve\<close>
  turns that into \<open>RuntimeError("Symlink loop ...")\<close>, and \<open>Path.stat\<close> into \<open>OSError\<close>.
\<close>

definition MAXSYMLINKS :: nat where
  "MAXSYMLINKS = 40"

text \<open>
  \<open>os.path.realpath\<close> in its non-strict mode (\<open>posixpath._joinrealpath\<close>): walk the
  remaining components from the already resolved prefix \<open>cur\<close>; \<open>..\<close> drops the last
  resolved component, a symbolic link is replaced by its target, anything else (missing
  entries too) is appended. \<open>None\<close> is a symbolic-link loop.
\<close>

fun realpath :: "nat \<Rightarrow> filesystem \<Rightarrow> path \<Rightarrow> path \<Rightarrow> path option" where
  "realpath n fs cur [] = Some cur"
| "realpath n fs cur (c # rest) =
     (if c = ''..'' then realpath n fs (butlast cur) rest
      else case lstat fs (cur @ [c]) of
        Some (Link tgt) \<Rightarrow>
          (case n of 0 \<Rightarrow> None | Suc m \<Rightarrow> realpath m fs [] (tgt @ rest))
      | _ \<Rightarrow> realpath n fs (cur @ [c]) rest)"

text \<open>\<open>Path.resolve()\<close> of an absolute path.\<close>

definition resolve :: "filesystem \<Rightarrow> path \<Rightarrow> pyerr + path" where
  "resolve fs p =
     (case realpath MAXSYMLINKS fs [] p of None \<Rightarrow> Inl RuntimeError | Some q \<Rightarrow> Inr q)"

text \<open>
  \<open>os.stat\<close>: follows links; \<open>None\<close> is any \<open>OSError\<close> (missing entry, link loop). A
  resolved path is never a link itself, so the inner \<open>Link\<close> case is only there to make
  that plain.
\<close>

definition stat :: "filesystem \<Rightarrow> path \<Rightarrow> node option" where
  "stat fs p =
     (case realpath MAXSYMLINKS fs [] p of
        None \<Rightarrow> None
      | Some q \<Rightarrow> (case lstat fs q of Some (Link _) \<Rightarrow> None | r \<Rightarrow> r))"

definition exists :: "filesystem \<Rightarrow> path \<Rightarrow> bool" where
  "exists fs p = (stat fs p \<noteq> None)"

definition is_dir :: "filesystem \<Rightarrow> path \<Rightarrow> bool" where
  "is_dir fs p = (stat fs p = Some Dir)"

definition is_file :: "filesystem \<Rightarrow> path \<Rightarrow> bool" where
  "is_file fs p = (stat fs p = Some File)"

text \<open>\<open>PurePath.is_relative_to\<close>: a comparison of components, the path itself included.\<close>

definition is_relative_to :: "path \<Rightarrow> path \<Rightarrow> bool" where
  "is_relative_to p other = prefix other p"

text \<open>
  \<open>target.rglob('*')\<close>: every entry below the target, in scan order. The scan descends
  into directories only, never through a symbolic link, so it reports exactly the
  entries whose location extends the target's.
\<close>

definition rglob :: "filesystem \<Rightarrow> path \<Rightarrow> path list" where
  "rglob fs t = filter (strict_prefix t) (map fst fs)"

definition remove_entry :: "path \<Rightarrow> filesystem \<Rightarrow> filesystem" where
  "remove_entry p fs = filter (\<lambda>e. fst e \<noteq> p) fs"

definition has_children :: "filesystem \<Rightarrow> path \<Rightarrow> bool" where
  "has_children fs p = list_ex (\<lambda>e. strict_prefix p (fst e)) fs"

text \<open>\<open>Path.unlink()\<close>: removes a file or a link (the link, not what it points to).\<close>

definition unlink :: "path list \<Rightarrow> filesystem \<Rightarrow> path \<Rightarrow> pyerr + filesystem" where
  "unlink den fs p =
     (case lstat fs p of
        None \<Rightarrow> Inl FileNotFoundError
      | Some Dir \<Rightarrow> Inl IsADirectoryError
      | Some _ \<Rightarrow> if p \<in> set den then Inl PermissionError else Inr (remove_entry p fs))"

text \<open>\<open>Path.rmdir()\<close>: removes an empty directory, and nothing else.\<close>

definition rmdir :: "path list \<Rightarrow> filesystem \<Rightarrow> path \<Rightarrow> pyerr + filesystem" where
  "rmdir den fs p =
     (case lstat fs p of
        None \<Rightarrow> Inl FileNotFoundError
      | Some Dir \<Rightarrow>
          if p \<in> set den \<or> p = [] then Inl PermissionError
          else if has_children fs p then Inl DirectoryNotEmpty
          else Inr (remove_entry p fs)
      | Some _ \<Rightarrow> Inl NotADirectoryError)"

text \<open>
  What every real file system satisfies: an entry has a name, lies in a directory, and
  neither it nor the target of a link has a component \<open>..\<close> (link targets are kept in
  resolved absolute form).
\<close>

definition well_formed :: "filesystem \<Rightarrow> bool" where
  "well_formed fs =
     list_all (\<lambda>(p, n). p \<noteq> [] \<and> ''..'' \<notin> set p \<and> lstat fs (butlast p) = Some Dir
                 \<and> (case n of Link tgt \<Rightarrow> ''..'' \<notin> set tgt | _ \<Rightarrow> True)) fs"

text \<open>\<open>str(path)\<close> and the construction of a \<open>Path\<close> from a string.\<close>

definition path_str :: "path \<Rightarrow> string" where
  "path_str p = (if p = [] then ''/'' else concat (map (\<lambda>c. CHR ''/'' # c) p))"

fun split_on :: "char \<Rightarrow> string \<Rightarrow> string list" where
  "split_on d [] = [[]]"
| "split_on d (x # xs) =
     (if x = d then [] # split_on d xs
      else (case split_on d xs of [] \<Rightarrow> [[x]] | w # ws \<Rightarrow> (x # w) # ws))"

text \<open>
  \<open>Path(s)\<close> drops empty and \<open>.\<close> components and keeps \<open>..\<close>; a relative path is taken
  from the working directory when it is resolved.
\<close>

definition path_parts :: "string \<Rightarrow> path" where
  "path_parts s = filter (\<lambda>c. c \<noteq> [] \<and> c \<noteq> ''.'') (split_on CHR ''/'' s)"

definition path_is_absolute :: "string \<Rightarrow> bool" where
  "path_is_absolute s = (case s of [] \<Rightarrow> False | c # _ \<Rightarrow> c = CHR ''/'')"

definition absolute_parts :: "path \<Rightarrow> string \<Rightarrow> path" where
  "absolute_parts cwd s = (if path_is_absolute s then path_parts s else cwd @ path_parts s)"

text \<open>\<open>str.strip\<close>, \<open>str.replace\<close> on single characters, and Python's \<open>or\<close> on optional strings.\<close>

definition py_isspace :: "char \<Rightarrow> bool" where
  "py_isspace c = (c \<in> set [CHR 0x09, CHR 0x0A, CHR 0x0B, CHR 0x0C, CHR 0x0D,
                            CHR 0x1C, CHR 0x1D, CHR 0x1E, CHR 0x1F, CHR 0x20])"

definition strip_chars :: "(char \<Rightarrow> bool) \<Rightarrow> string \<Rightarrow> string" where
  "strip_chars P s = rev (dropWhile P (rev (dropWhile P s)))"

definition replace_char :: "char \<Rightarrow> char \<Rightarrow> string \<Rightarrow> string" where
  "replace_char old new s = map (\<lambda>c. if c = old then new else c) s"

definition os_sep :: char where
  "os_sep = CHR ''/''"

definition truthy :: "string option \<Rightarrow> bool" where
  "truthy v = (case v of None \<Rightarrow> False | Some s \<Rightarrow> s \<noteq> [])"

definition py_or :: "string option \<Rightarrow> string option \<Rightarrow> string option" where
  "py_or a b = (if truthy a then a else b)"

section \<open>The program\<close>

text \<open>
  What the process finds when it starts: the file system, the entries that cannot be
  removed, the environment variables, the working directory, the directory of the script
  (where the log file goes), and \<open>os.path.expandvars\<close>, which is platform code and is
  left open.
\<close>

record world =
  w_fs :: filesystem
  w_denied :: "path list"
  w_environ :: "(string \<times> string) list"
  w_cwd :: path
  w_script_dir :: path
  w_expandvars :: "string \<Rightarrow> string"

record args =
  arg_path :: "string option"
  arg_yes :: bool

definition getenv :: "world \<Rightarrow> string \<Rightarrow> string option" where
  "getenv w k = map_of (w_environ w) k"

text \<open>The records of the run log (the timestamp is left out) and the console output.\<close>

datatype level = INFO | WARNING | ERROR

datatype message =
    Cancelled
  | NoFiles
  | DeletedFile path
  | SkippingFile path
  | FailedFile path pyerr
  | DeletedDir path
  | SkippingDir path
  | FailedDir path pyerr
  | Completed

type_synonym logrec = "level \<times> message"

datatype console =
    WarningPanel
  | TargetLine path
  | ErrorNotFound path
  | ErrorUnexpected
  | ConfirmPrompt path
  | CancelledMsg
  | NoFilesMsg
  | DeletingMsg nat
  | CompletedMsg
  | SummaryTable path nat path

datatype outcome = Returned | SysExit nat | Raised pyerr

record result =
  r_exit :: outcome
  r_fs :: filesystem
  r_log :: "logrec list"
  r_console :: "console list"

text \<open>
  \<^verbatim>\<open>
  def normalize_path(path_str: str) -> Path:
      raw = path_str.strip().strip('"').strip("'")
      expanded = os.path.expandvars(raw)
      expanded = expanded.replace("/", os.sep).replace("\\", os.sep)
      return Path(expanded).resolve()
  \<close>
\<close>

definition normalize_path :: "world \<Rightarrow> string \<Rightarrow> pyerr + path" where
  "normalize_path w path_s =
     (let raw = strip_chars (\<lambda>c. c = CHR 0x27)
                  (strip_chars (\<lambda>c. c = CHR 0x22) (strip_chars py_isspace path_s));
          expanded = w_expandvars w raw;
          expanded = replace_char (CHR 0x5C) os_sep (replace_char CHR ''/'' os_sep expanded)
      in resolve (w_fs w) (absolute_parts (w_cwd w) expanded))"

text \<open>
  Lines 59 to 64 of \<open>main\<close>: the target directory. \<open>Path(None)\<close> raises \<open>TypeError\<close>.
\<close>

definition target_path :: "world \<Rightarrow> args \<Rightarrow> pyerr + path" where
  "target_path w a =
     (if truthy (arg_path a) then normalize_path w (the (arg_path a))
      else
        (case py_or (getenv w ''LOCALAPPDATA'') (getenv w ''APPDATA'') of
           None \<Rightarrow> Inl TypeError
         | Some local_appdata \<Rightarrow>
             resolve (w_fs w)
               (absolute_parts (w_cwd w) local_appdata @ [''Adobe'', ''CameraRaw'', ''Cache2''])))"

text \<open>The body of the loop over \<open>all_files\<close> (lines 98 to 107), on the pair of file system and log.\<close>

definition delete_file ::
  "path list \<Rightarrow> path \<Rightarrow> path \<Rightarrow> filesystem \<times> logrec list \<Rightarrow> filesystem \<times> logrec list" where
  "delete_file den target file_path s =
     (case resolve (fst s) file_path of
        Inl e \<Rightarrow> (fst s, snd s @ [(ERROR, FailedFile file_path e)])
      | Inr q \<Rightarrow>
          if \<not> is_relative_to q target
          then (fst s, snd s @ [(WARNING, SkippingFile file_path)])
          else (case unlink den (fst s) file_path of
                  Inl e \<Rightarrow> (fst s, snd s @ [(ERROR, FailedFile file_path e)])
                | Inr fs' \<Rightarrow> (fs', snd s @ [(INFO, DeletedFile file_path)])))"

text \<open>The body of the loop over \<open>all_dirs\<close> (lines 109 to 117).\<close>

definition delete_dir ::
  "path list \<Rightarrow> path \<Rightarrow> path \<Rightarrow> filesystem \<times> logrec list \<Rightarrow> filesystem \<times> logrec list" where
  "delete_dir den target dir_path s =
     (case resolve (fst s) dir_path of
        Inl e \<Rightarrow> (fst s, snd s @ [(ERROR, FailedDir dir_path e)])
      | Inr q \<Rightarrow>
          if \<not> is_relative_to q target
          then (fst s, snd s @ [(WARNING, SkippingDir dir_path)])
          else (case rmdir den (fst s) dir_path of
                  Inl e \<Rightarrow> (fst s, snd s @ [(ERROR, FailedDir dir_path e)])
                | Inr fs' \<Rightarrow> (fs', snd s @ [(INFO, DeletedDir dir_path)])))"

text \<open>Lines 82 to 84: the two lists of the scan, the directories longest path string first.\<close>

definition all_files :: "filesystem \<Rightarrow> path \<Rightarrow> path list" where
  "all_files fs target = filter (is_file fs) (rglob fs target)"

definition all_dirs :: "filesystem \<Rightarrow> path \<Rightarrow> path list" where
  "all_dirs fs target =
     sort_key (\<lambda>p. - int (length (path_str p))) (filter (is_dir fs) (rglob fs target))"

definition log_path :: "world \<Rightarrow> path" where
  "log_path w = w_script_dir w @ [''delete_cache.log'']"

text \<open>
  \<open>main\<close>, from the warning panel on. \<open>answer\<close> is what the user replies to
  \<open>Confirm.ask\<close> if the prompt is shown. The log starts empty, since the file is opened
  with mode \<open>w\<close>; the transient progress display is left out.
\<close>

definition main :: "world \<Rightarrow> args \<Rightarrow> bool \<Rightarrow> result" where
  "main w a answer =
     (case target_path w a of
        Inl e \<Rightarrow>
          \<lparr>r_exit = Raised e, r_fs = w_fs w, r_log = [], r_console = [WarningPanel]\<rparr>
      | Inr target \<Rightarrow>
          if \<not> exists (w_fs w) target \<or> \<not> is_dir (w_fs w) target then
            \<lparr>r_exit = SysExit 1, r_fs = w_fs w, r_log = [],
             r_console = [WarningPanel, TargetLine target, ErrorNotFound target]\<rparr>
          else if \<not> sublist ''CameraRaw'' (path_str target)
                  \<or> \<not> sublist ''Cache2'' (path_str target) then
            \<lparr>r_exit = SysExit 1, r_fs = w_fs w, r_log = [],
             r_console = [WarningPanel, TargetLine target, ErrorUnexpected]\<rparr>
          else if \<not> arg_yes a \<and> \<not> answer then
            \<lparr>r_exit = SysExit 0, r_fs = w_fs w, r_log = [(INFO, Cancelled)],
             r_console = [WarningPanel, TargetLine target, ConfirmPrompt target, CancelledMsg]\<rparr>
          else
            (let shown = [WarningPanel, TargetLine target]
                           @ (if \<not> arg_yes a then [ConfirmPrompt target] else []);
                 files = all_files (w_fs w) target;
                 dirs = all_dirs (w_fs w) target;
                 total_files = length files
             in if total_files = 0 then
                  \<lparr>r_exit = Returned, r_fs = w_fs w, r_log = [(INFO, NoFiles)],
                   r_console = shown @ [NoFilesMsg, SummaryTable target total_files (log_path w)]\<rparr>
                else
                  (let s1 = fold (delete_file (w_denied w) target) files (w_fs w, []);
                       s2 = fold (delete_dir (w_denied w) target) dirs s1
                   in \<lparr>r_exit = Returned, r_fs = fst s2, r_log = snd s2 @ [(INFO, Completed)],
                       r_console = shown @ [DeletingMsg total_files, CompletedMsg,
                                            SummaryTable target total_files (log_path w)]\<rparr>)))"

section \<open>Reading the run log\<close>

text \<open>
  Every iteration of the two loops writes exactly one record, which names the entry it
  handled. \<open>processed\<close> reads the order in which the entries were handled off the log.
\<close>

datatype kind = AsFile | AsDir

fun entry_of :: "message \<Rightarrow> (kind \<times> path) option" where
  "entry_of (DeletedFile p) = Some (AsFile, p)"
| "entry_of (SkippingFile p) = Some (AsFile, p)"
| "entry_of (FailedFile p e) = Some (AsFile, p)"
| "entry_of (DeletedDir p) = Some (AsDir, p)"
| "entry_of (SkippingDir p) = Some (AsDir, p)"
| "entry_of (FailedDir p e) = Some (AsDir, p)"
| "entry_of _ = None"

fun processed :: "logrec list \<Rightarrow> (kind \<times> path) list" where
  "processed [] = []"
| "processed (r # rs) =
     (case entry_of (snd r) of None \<Rightarrow> processed rs | Some e \<Rightarrow> e # processed rs)"

section \<open>Example file systems\<close>

text \<open>
  The folder \<open>/home/u/Adobe/CameraRaw/Cache2\<close> with its parent directories, reached
  through \<open>LOCALAPPDATA=/home/u\<close>, and a few contents for it.
\<close>

definition ex_target :: path where
  "ex_target = [''home'', ''u'', ''Adobe'', ''CameraRaw'', ''Cache2'']"

definition ex_base :: filesystem where
  "ex_base =
     [([''home''], Dir), ([''home'', ''u''], Dir), ([''home'', ''u'', ''Adobe''], Dir),
      ([''home'', ''u'', ''Adobe'', ''CameraRaw''], Dir), (ex_target, Dir)]"

definition ex_world :: "filesystem \<Rightarrow> path list \<Rightarrow> world" where
  "ex_world fs den =
     \<lparr>w_fs = fs, w_denied = den, w_environ = [(''LOCALAPPDATA'', ''/home/u'')],
      w_cwd = [''home'', ''u''], w_script_dir = [''opt'', ''tool''], w_expandvars = id\<rparr>"

definition ex_args :: "string option \<Rightarrow> bool \<Rightarrow> args" where
  "ex_args p y = \<lparr>arg_path = p, arg_yes = y\<rparr>"

text \<open>An empty subdirectory and nothing else.\<close>

definition ex_fs_sub :: filesystem where
  "ex_fs_sub = ex_base @ [(ex_target @ [''sub''], Dir)]"

text \<open>
  A file that cannot be removed, and a link to a file outside the target.
\<close>

definition ex_fs_link :: filesystem where
  "ex_fs_link =
     ex_base @ [(ex_target @ [''a.dat''], File), (ex_target @ [''l''], Link [''srv'', ''f'']),
                ([''srv''], Dir), ([''srv'', ''f''], File)]"

text \<open>The example of the specification: two files and an empty subdirectory.\<close>

definition ex_fs_abc :: filesystem where
  "ex_fs_abc =
     ex_base @ [(ex_target @ [''a.dat''], File), (ex_target @ [''sub''], Dir),
                (ex_target @ [''b.dat''], File)]"

text \<open>A file and a link whose target does not exist.\<close>

definition ex_fs_dangling :: filesystem where
  "ex_fs_dangling =
     ex_base @ [(ex_target @ [''a.dat''], File),
                (ex_target @ [''gone''], Link [''srv'', ''missing''])]"

text \<open>Nested directories, listed parents first.\<close>

definition ex_fs_deep :: filesystem where
  "ex_fs_deep =
     ex_base @ [(ex_target @ [''sub''], Dir), (ex_target @ [''sub'', ''inner''], Dir),
                (ex_target @ [''sub'', ''inner'', ''x.dat''], File),
                (ex_target @ [''y.dat''], File)]"

section \<open>What the two loops change\<close>

lemma lstat_remove_entry:
  "lstat (remove_entry p fs) q = (if q = p \<and> q \<noteq> [] then None else lstat fs q)"
  by (induction fs) (auto simp: lstat_def remove_entry_def)

lemma unlink_Inr: "unlink den fs p = Inr fs' \<Longrightarrow> fs' = remove_entry p fs"
  by (auto simp: unlink_def split: option.splits node.splits if_splits)

lemma rmdir_Inr: "rmdir den fs p = Inr fs' \<Longrightarrow> fs' = remove_entry p fs"
  by (auto simp: rmdir_def split: option.splits node.splits if_splits)

lemma delete_file_fst:
  "fst (delete_file den t p s) = fst s \<or> fst (delete_file den t p s) = remove_entry p (fst s)"
  by (auto simp: delete_file_def dest: unlink_Inr split: sum.splits)

lemma delete_dir_fst:
  "fst (delete_dir den t p s) = fst s \<or> fst (delete_dir den t p s) = remove_entry p (fst s)"
  by (auto simp: delete_dir_def dest: rmdir_Inr split: sum.splits)

lemma delete_file_frame:
  "q \<noteq> p \<Longrightarrow> lstat (fst (delete_file den t p s)) q = lstat (fst s) q"
  using delete_file_fst [of den t p s] by (auto simp: lstat_remove_entry)

lemma delete_dir_frame:
  "q \<noteq> p \<Longrightarrow> lstat (fst (delete_dir den t p s)) q = lstat (fst s) q"
  using delete_dir_fst [of den t p s] by (auto simp: lstat_remove_entry)

lemma fold_delete_file_frame:
  "q \<notin> set ps \<Longrightarrow> lstat (fst (fold (delete_file den t) ps s)) q = lstat (fst s) q"
  by (induction ps arbitrary: s) (auto simp: delete_file_frame)

lemma fold_delete_dir_frame:
  "q \<notin> set ps \<Longrightarrow> lstat (fst (fold (delete_dir den t) ps s)) q = lstat (fst s) q"
  by (induction ps arbitrary: s) (auto simp: delete_dir_frame)

lemma all_files_below: "p \<in> set (all_files fs t) \<Longrightarrow> strict_prefix t p"
  by (auto simp: all_files_def rglob_def)

lemma all_dirs_below: "p \<in> set (all_dirs fs t) \<Longrightarrow> strict_prefix t p"
  by (auto simp: all_dirs_def rglob_def)

lemma main_frame:
  assumes "\<not> strict_prefix t q" and "target_path w a = Inr t"
  shows "lstat (r_fs (main w a answer)) q = lstat (w_fs w) q"
proof -
  have "q \<notin> set (all_files (w_fs w) t)" and "q \<notin> set (all_dirs (w_fs w) t)"
    using assms(1) all_files_below all_dirs_below by blast+
  then show ?thesis
    using assms(2) by (simp add: main_def Let_def fold_delete_file_frame fold_delete_dir_frame)
qed

lemma delete_file_skip:
  "resolve (fst s) p = Inr q \<Longrightarrow> \<not> is_relative_to q t \<Longrightarrow>
   delete_file den t p s = (fst s, snd s @ [(WARNING, SkippingFile p)])"
  by (simp add: delete_file_def)

lemma delete_dir_skip:
  "resolve (fst s) p = Inr q \<Longrightarrow> \<not> is_relative_to q t \<Longrightarrow>
   delete_dir den t p s = (fst s, snd s @ [(WARNING, SkippingDir p)])"
  by (simp add: delete_dir_def)

section \<open>The order of the run\<close>

lemma processed_append: "processed (xs @ ys) = processed xs @ processed ys"
  by (induction xs) (auto split: option.splits)

lemma processed_delete_file:
  "processed (snd (delete_file den t p s)) = processed (snd s) @ [(AsFile, p)]"
  by (auto simp: delete_file_def processed_append split: sum.splits)

lemma processed_delete_dir:
  "processed (snd (delete_dir den t p s)) = processed (snd s) @ [(AsDir, p)]"
  by (auto simp: delete_dir_def processed_append split: sum.splits)

lemma processed_fold_files:
  "processed (snd (fold (delete_file den t) ps s)) = processed (snd s) @ map (Pair AsFile) ps"
  by (induction ps arbitrary: s) (auto simp: processed_delete_file)

lemma processed_fold_dirs:
  "processed (snd (fold (delete_dir den t) ps s)) = processed (snd s) @ map (Pair AsDir) ps"
  by (induction ps arbitrary: s) (auto simp: processed_delete_dir)

lemma processed_main:
  "processed (r_log (main w a answer)) = [] \<or>
   (\<exists>t. target_path w a = Inr t \<and> processed (r_log (main w a answer)) =
      map (Pair AsFile) (all_files (w_fs w) t) @ map (Pair AsDir) (all_dirs (w_fs w) t))"
  by (auto simp: main_def Let_def processed_append processed_fold_files processed_fold_dirs
        split: sum.splits)

lemma path_str_longer:
  assumes "strict_prefix d x" and "d \<noteq> []"
  shows "length (path_str d) < length (path_str x)"
proof -
  from assms(1) obtain zs where "x = d @ zs" and "zs \<noteq> []"
    by (auto simp: strict_prefix_def prefix_def)
  then obtain c r where "x = d @ c # r"
    by (cases zs) auto
  then show ?thesis using assms(2) by (simp add: path_str_def)
qed

lemma sorted_all_dirs:
  "sorted (map (\<lambda>p. - int (length (path_str p))) (all_dirs fs t))"
  by (simp add: all_dirs_def)

lemma dirs_order:
  assumes "j < length (all_dirs fs t)" and "x \<in> set (all_dirs fs t)"
    and "strict_prefix (all_dirs fs t ! j) x"
  shows "x \<in> set (take j (all_dirs fs t))"
proof -
  let ?ds = "all_dirs fs t" and ?k = "\<lambda>p. - int (length (path_str p))"
  from assms(2) obtain i where i: "i < length ?ds" "?ds ! i = x"
    by (auto simp: in_set_conv_nth)
  have "?ds ! j \<noteq> []" using all_dirs_below [of "?ds ! j" fs t] assms(1) by auto
  then have lt: "?k x < ?k (?ds ! j)" using path_str_longer [OF assms(3)] by simp
  have "i < j"
  proof (rule ccontr)
    assume "\<not> i < j"
    then have "j \<le> i" by simp
    then have "map ?k ?ds ! j \<le> map ?k ?ds ! i"
      using sorted_all_dirs [of fs t] i(1) by (simp add: sorted_iff_nth_mono)
    then show False using lt i assms(1) by simp
  qed
  then show ?thesis using i by (auto simp: in_set_conv_nth)
qed

section \<open>Well-formed file systems and what survives a run\<close>

lemma lstat_SomeD: "lstat fs q = Some n \<Longrightarrow> q \<noteq> [] \<Longrightarrow> (q, n) \<in> set fs"
  by (simp add: lstat_def map_of_SomeD)

lemma wf_entry:
  assumes "well_formed fs" and "(p, n) \<in> set fs"
  shows "p \<noteq> []" and "''..'' \<notin> set p" and "lstat fs (butlast p) = Some Dir"
    and "\<And>tgt. n = Link tgt \<Longrightarrow> ''..'' \<notin> set tgt"
  using assms by (auto simp: well_formed_def list_all_iff)

lemma wf_parent:
  assumes "well_formed fs" and "lstat fs (q @ [c]) = Some n"
  shows "lstat fs q = Some Dir"
  using wf_entry(3) [OF assms(1) lstat_SomeD [OF assms(2)]] by simp

lemma wf_link:
  assumes "well_formed fs" and "lstat fs q = Some (Link tgt)"
  shows "''..'' \<notin> set tgt"
proof -
  have "q \<noteq> []" using assms(2) by (auto simp: lstat_def)
  then show ?thesis using wf_entry(4) [OF assms(1) lstat_SomeD [OF assms(2)]] by simp
qed

lemma wf_missing_below:
  assumes "well_formed fs" and "lstat fs x \<noteq> Some Dir" and "ys \<noteq> []"
  shows "lstat fs (x @ ys) = None"
  using assms(3)
proof (induction ys rule: rev_induct)
  case Nil
  then show ?case by simp
next
  case (snoc c zs)
  show ?case
  proof (cases "lstat fs (x @ zs @ [c])")
    case None
    then show ?thesis by simp
  next
    case (Some n)
    then have par: "lstat fs (x @ zs) = Some Dir"
      using wf_parent [OF assms(1), of "x @ zs" c n] by simp
    show ?thesis
    proof (cases "zs = []")
      case True
      then show ?thesis using par assms(2) by simp
    next
      case False
      then show ?thesis using snoc.IH par by simp
    qed
  qed
qed

lemma realpath_missing:
  assumes "well_formed fs"
  shows "lstat fs x \<noteq> Some Dir \<Longrightarrow> ''..'' \<notin> set rest \<Longrightarrow> realpath n fs x rest = Some (x @ rest)"
proof (induction rest arbitrary: x)
  case Nil
  then show ?case by simp
next
  case (Cons c rest)
  have none: "lstat fs (x @ [c]) = None"
    using wf_missing_below [OF assms Cons.prems(1), of "[c]"] by simp
  have c: "c \<noteq> ''..''" using Cons.prems(2) by auto
  have "realpath n fs (x @ [c]) rest = Some ((x @ [c]) @ rest)"
    using Cons.IH [of "x @ [c]"] Cons.prems(2) none by simp
  then show ?case using none c by simp
qed

lemma realpath_mono:
  assumes "well_formed fs'" and "\<And>q n. lstat fs' q = Some n \<Longrightarrow> lstat fs q = Some n"
  shows "realpath n fs' cur rest = Some q \<Longrightarrow> ''..'' \<notin> set rest \<Longrightarrow> lstat fs' q \<noteq> None
    \<Longrightarrow> realpath n fs cur rest = Some q"
  using assms
proof (induction n fs' cur rest rule: realpath.induct)
  case (1 n fs' cur)
  then show ?case by simp
next
  case (2 n fs' cur c rest)
  have c: "c \<noteq> ''..''" and rest: "''..'' \<notin> set rest" using "2.prems"(2) by auto
  show ?case
  proof (cases "lstat fs' (cur @ [c])")
    case None
    then have "realpath n fs' (cur @ [c]) rest = Some ((cur @ [c]) @ rest)"
      using realpath_missing [OF "2.prems"(4), of "cur @ [c]" rest n] rest by simp
    then have q: "q = (cur @ [c]) @ rest" using "2.prems"(1) c None by simp
    have "lstat fs' q = None"
    proof (cases "rest = []")
      case True
      then show ?thesis using q None by simp
    next
      case False
      then show ?thesis
        using wf_missing_below [OF "2.prems"(4), of "cur @ [c]" rest] None q by simp
    qed
    then show ?thesis using "2.prems"(3) by simp
  next
    case (Some nd)
    then have same: "lstat fs (cur @ [c]) = Some nd" using "2.prems"(5) by blast
    show ?thesis
    proof (cases nd)
      case File
      then have "realpath n fs' (cur @ [c]) rest = Some q"
        using "2.prems"(1) c Some by simp
      then have "realpath n fs (cur @ [c]) rest = Some q"
        using "2.IH"(3) [OF c Some File] rest "2.prems"(3,4,5) by simp
      then show ?thesis using c same File by simp
    next
      case Dir
      then have "realpath n fs' (cur @ [c]) rest = Some q"
        using "2.prems"(1) c Some by simp
      then have "realpath n fs (cur @ [c]) rest = Some q"
        using "2.IH"(4) [OF c Some Dir] rest "2.prems"(3,4,5) by simp
      then show ?thesis using c same Dir by simp
    next
      case (Link tgt)
      then obtain m where n: "n = Suc m" and r: "realpath m fs' [] (tgt @ rest) = Some q"
        using "2.prems"(1) c Some by (cases n) auto
      have "''..'' \<notin> set (tgt @ rest)"
        using wf_link [OF "2.prems"(4)] Some Link rest by auto
      then have "realpath m fs [] (tgt @ rest) = Some q"
        using "2.IH"(5) [OF c Some Link n r] "2.prems"(3,4,5) by simp
      then show ?thesis using c same Link n by simp
    qed
  qed
qed

lemma stat_mono:
  assumes "well_formed fs'" and "\<And>q n. lstat fs' q = Some n \<Longrightarrow> lstat fs q = Some n"
    and "stat fs' p = Some k" and "''..'' \<notin> set p"
  shows "stat fs p = Some k"
proof -
  from assms(3) obtain q where q: "realpath MAXSYMLINKS fs' [] p = Some q"
    and k: "lstat fs' q = Some k" and nl: "\<forall>tgt. k \<noteq> Link tgt"
    by (auto simp: stat_def split: option.splits node.splits)
  have "realpath MAXSYMLINKS fs [] p = Some q"
    using realpath_mono [OF assms(1,2) q assms(4)] k by simp
  moreover have "lstat fs q = Some k" using assms(2) k by blast
  ultimately show ?thesis using nl by (cases k) (auto simp: stat_def)
qed

lemma in_keys_lstat: "p \<noteq> [] \<Longrightarrow> p \<in> fst ` set fs \<longleftrightarrow> lstat fs p \<noteq> None"
  by (simp add: lstat_def map_of_eq_None_iff)

lemma has_children_iff: "has_children fs p \<longleftrightarrow> (\<exists>q \<in> fst ` set fs. strict_prefix p q)"
  by (auto simp: has_children_def list_ex_iff)

lemma wf_remove:
  assumes "well_formed fs" and "lstat fs p \<noteq> Some Dir \<or> \<not> has_children fs p"
  shows "well_formed (remove_entry p fs)"
proof -
  have "lstat (remove_entry p fs) (butlast q) = Some Dir"
    if e: "(q, n) \<in> set fs" and "q \<noteq> p" for q n
  proof -
    note w = wf_entry [OF assms(1) e]
    have "butlast q \<noteq> p \<or> p = []"
    proof (rule ccontr)
      assume "\<not> (butlast q \<noteq> p \<or> p = [])"
      then have bp: "butlast q = p" by simp
      then have "lstat fs p = Some Dir" using w(3) by simp
      moreover have "q = p @ [last q]" using bp w(1) by (metis append_butlast_last_id)
      then have "strict_prefix p q" by (metis strict_prefixI')
      then have "has_children fs p" using e by (force simp: has_children_iff)
      ultimately show False using assms(2) by simp
    qed
    then show ?thesis using w(3) by (auto simp: lstat_remove_entry)
  qed
  then show ?thesis
    using assms(1) by (auto simp: well_formed_def list_all_iff remove_entry_def [of p fs])
qed

lemma unlink_wf: "well_formed fs \<Longrightarrow> unlink den fs p = Inr fs' \<Longrightarrow> well_formed fs'"
  by (auto simp: unlink_def wf_remove split: option.splits node.splits if_splits)

lemma rmdir_wf: "well_formed fs \<Longrightarrow> rmdir den fs p = Inr fs' \<Longrightarrow> well_formed fs'"
  by (auto simp: rmdir_def wf_remove split: option.splits node.splits if_splits)

lemma delete_file_wf: "well_formed (fst s) \<Longrightarrow> well_formed (fst (delete_file den t p s))"
  by (auto simp: delete_file_def unlink_wf split: sum.splits)

lemma delete_dir_wf: "well_formed (fst s) \<Longrightarrow> well_formed (fst (delete_dir den t p s))"
  by (auto simp: delete_dir_def rmdir_wf split: sum.splits)

lemma fold_delete_file_wf:
  "well_formed (fst s) \<Longrightarrow> well_formed (fst (fold (delete_file den t) ps s))"
  by (induction ps arbitrary: s) (auto simp: delete_file_wf)

lemma fold_delete_dir_wf:
  "well_formed (fst s) \<Longrightarrow> well_formed (fst (fold (delete_dir den t) ps s))"
  by (induction ps arbitrary: s) (auto simp: delete_dir_wf)

lemma delete_file_sub:
  "lstat (fst (delete_file den t p s)) q = Some n \<Longrightarrow> lstat (fst s) q = Some n"
  using delete_file_fst [of den t p s] by (auto simp: lstat_remove_entry split: if_splits)

lemma delete_dir_sub:
  "lstat (fst (delete_dir den t p s)) q = Some n \<Longrightarrow> lstat (fst s) q = Some n"
  using delete_dir_fst [of den t p s] by (auto simp: lstat_remove_entry split: if_splits)

lemma fold_delete_file_sub:
  "lstat (fst (fold (delete_file den t) ps s)) q = Some n \<Longrightarrow> lstat (fst s) q = Some n"
proof (induction ps arbitrary: s)
  case Nil
  then show ?case by simp
next
  case (Cons p ps)
  then have "lstat (fst (delete_file den t p s)) q = Some n" by simp
  then show ?case by (rule delete_file_sub)
qed

lemma fold_delete_dir_sub:
  "lstat (fst (fold (delete_dir den t) ps s)) q = Some n \<Longrightarrow> lstat (fst s) q = Some n"
proof (induction ps arbitrary: s)
  case Nil
  then show ?case by simp
next
  case (Cons p ps)
  then have "lstat (fst (delete_dir den t p s)) q = Some n" by simp
  then show ?case by (rule delete_dir_sub)
qed

lemma delete_file_log:
  "\<exists>r. snd (delete_file den t p s) = snd s @ [r]
     \<and> (fst r = INFO \<longrightarrow> fst (delete_file den t p s) = remove_entry p (fst s))"
  by (auto simp: delete_file_def dest: unlink_Inr split: sum.splits)

lemma delete_dir_log:
  "\<exists>r. snd (delete_dir den t p s) = snd s @ [r]
     \<and> (fst r = INFO \<longrightarrow> fst (delete_dir den t p s) = remove_entry p (fst s))"
  by (auto simp: delete_dir_def dest: rmdir_Inr split: sum.splits)

lemma fold_delete_file_clean:
  assumes "list_all (\<lambda>r. fst r = INFO) (snd (fold (delete_file den t) ps s))" and "[] \<notin> set ps"
  shows "list_all (\<lambda>r. fst r = INFO) (snd s)
    \<and> (\<forall>p \<in> set ps. lstat (fst (fold (delete_file den t) ps s)) p = None)"
  using assms
proof (induction ps arbitrary: s)
  case Nil
  then show ?case by simp
next
  case (Cons p ps)
  let ?s1 = "delete_file den t p s"
  have ih: "list_all (\<lambda>r. fst r = INFO) (snd ?s1)"
    "\<forall>x \<in> set ps. lstat (fst (fold (delete_file den t) ps ?s1)) x = None"
    using Cons.IH [of ?s1] Cons.prems by auto
  obtain r where r: "snd ?s1 = snd s @ [r]"
    "fst r = INFO \<longrightarrow> fst ?s1 = remove_entry p (fst s)"
    using delete_file_log by blast
  then have "fst ?s1 = remove_entry p (fst s)" and s: "list_all (\<lambda>r. fst r = INFO) (snd s)"
    using ih(1) by auto
  then have "lstat (fst ?s1) p = None"
    using Cons.prems(2) by (auto simp: lstat_remove_entry)
  then have "lstat (fst (fold (delete_file den t) ps ?s1)) p = None"
    using fold_delete_file_sub [of den t ps ?s1 p] by (cases "lstat (fst (fold (delete_file den t) ps ?s1)) p") auto
  then show ?case using ih(2) s by simp
qed

lemma fold_delete_dir_clean:
  assumes "list_all (\<lambda>r. fst r = INFO) (snd (fold (delete_dir den t) ps s))" and "[] \<notin> set ps"
  shows "list_all (\<lambda>r. fst r = INFO) (snd s)
    \<and> (\<forall>p \<in> set ps. lstat (fst (fold (delete_dir den t) ps s)) p = None)"
  using assms
proof (induction ps arbitrary: s)
  case Nil
  then show ?case by simp
next
  case (Cons p ps)
  let ?s1 = "delete_dir den t p s"
  have ih: "list_all (\<lambda>r. fst r = INFO) (snd ?s1)"
    "\<forall>x \<in> set ps. lstat (fst (fold (delete_dir den t) ps ?s1)) x = None"
    using Cons.IH [of ?s1] Cons.prems by auto
  obtain r where r: "snd ?s1 = snd s @ [r]"
    "fst r = INFO \<longrightarrow> fst ?s1 = remove_entry p (fst s)"
    using delete_dir_log by blast
  then have "fst ?s1 = remove_entry p (fst s)" and s: "list_all (\<lambda>r. fst r = INFO) (snd s)"
    using ih(1) by auto
  then have "lstat (fst ?s1) p = None"
    using Cons.prems(2) by (auto simp: lstat_remove_entry)
  then have "lstat (fst (fold (delete_dir den t) ps ?s1)) p = None"
    using fold_delete_dir_sub [of den t ps ?s1 p] by (cases "lstat (fst (fold (delete_dir den t) ps ?s1)) p") auto
  then show ?case using ih(2) s by simp
qed

section \<open>Resolved paths\<close>

lemma realpath_no_links:
  "realpath n fs cur rest = Some q \<Longrightarrow>
   (\<forall>x tgt. prefix x cur \<longrightarrow> lstat fs x \<noteq> Some (Link tgt)) \<Longrightarrow> ''..'' \<notin> set cur \<Longrightarrow>
   (\<forall>x tgt. prefix x q \<longrightarrow> lstat fs x \<noteq> Some (Link tgt)) \<and> ''..'' \<notin> set q"
proof (induction n fs cur rest rule: realpath.induct)
  case (1 n fs cur)
  then show ?case by simp
next
  case (2 n fs cur c rest)
  show ?case
  proof (cases "c = ''..''")
    case True
    have a: "\<forall>x tgt. prefix x (butlast cur) \<longrightarrow> lstat fs x \<noteq> Some (Link tgt)"
      using "2.prems"(2) by (meson prefix_order.trans prefixeq_butlast)
    have b: "''..'' \<notin> set (butlast cur)" using "2.prems"(3) by (meson in_set_butlastD)
    have r: "realpath n fs (butlast cur) rest = Some q" using "2.prems"(1) True by simp
    show ?thesis by (rule "2.IH"(1) [OF True r a b])
  next
    case False
    have step: "\<forall>x tgt. prefix x (cur @ [c]) \<longrightarrow> lstat fs x \<noteq> Some (Link tgt)"
      if "\<forall>tgt. lstat fs (cur @ [c]) \<noteq> Some (Link tgt)"
      using that "2.prems"(2) by auto
    have dd: "''..'' \<notin> set (cur @ [c])" using False "2.prems"(3) by auto
    show ?thesis
    proof (cases "lstat fs (cur @ [c])")
      case None
      have r: "realpath n fs (cur @ [c]) rest = Some q" using "2.prems"(1) False None by simp
      have nl: "\<forall>tgt. lstat fs (cur @ [c]) \<noteq> Some (Link tgt)" using None by simp
      show ?thesis by (rule "2.IH"(2) [OF False None r step [OF nl] dd])
    next
      case (Some nd)
      show ?thesis
      proof (cases nd)
        case File
        have r: "realpath n fs (cur @ [c]) rest = Some q"
          using "2.prems"(1) False Some File by simp
        have nl: "\<forall>tgt. lstat fs (cur @ [c]) \<noteq> Some (Link tgt)" using Some File by simp
        show ?thesis by (rule "2.IH"(3) [OF False Some File r step [OF nl] dd])
      next
        case Dir
        have r: "realpath n fs (cur @ [c]) rest = Some q"
          using "2.prems"(1) False Some Dir by simp
        have nl: "\<forall>tgt. lstat fs (cur @ [c]) \<noteq> Some (Link tgt)" using Some Dir by simp
        show ?thesis by (rule "2.IH"(4) [OF False Some Dir r step [OF nl] dd])
      next
        case (Link tgt)
        then obtain m where n: "n = Suc m" and r: "realpath m fs [] (tgt @ rest) = Some q"
          using "2.prems"(1) False Some by (cases n) auto
        have a: "\<forall>x tgt. prefix x [] \<longrightarrow> lstat fs x \<noteq> Some (Link tgt)" by (simp add: lstat_def)
        have b: "''..'' \<notin> set []" by simp
        show ?thesis by (rule "2.IH"(5) [OF False Some Link n r a b])
      qed
    qed
  qed
qed

lemma realpath_resolved:
  "(\<forall>x tgt. prefix x (cur @ rest) \<longrightarrow> lstat fs x \<noteq> Some (Link tgt)) \<Longrightarrow> ''..'' \<notin> set rest \<Longrightarrow>
   realpath n fs cur rest = Some (cur @ rest)"
proof (induction rest arbitrary: cur)
  case Nil
  then show ?case by simp
next
  case (Cons c rest)
  have c: "c \<noteq> ''..''" using Cons.prems(2) by auto
  have "\<forall>tgt. lstat fs (cur @ [c]) \<noteq> Some (Link tgt)" using Cons.prems(1) by simp
  moreover have "realpath n fs (cur @ [c]) rest = Some ((cur @ [c]) @ rest)"
    using Cons.IH [of "cur @ [c]"] Cons.prems by simp
  ultimately show ?case using c by (auto split: option.splits node.splits)
qed

lemma target_path_resolve:
  assumes "target_path w a = Inr t"
  shows "\<exists>x. resolve (w_fs w) x = Inr t"
proof (cases "truthy (arg_path a)")
  case True
  then have "normalize_path w (the (arg_path a)) = Inr t"
    using assms by (simp add: target_path_def)
  then show ?thesis unfolding normalize_path_def Let_def by (rule exI)
next
  case False
  then show ?thesis
    using assms by (cases "py_or (getenv w ''LOCALAPPDATA'') (getenv w ''APPDATA'')")
      (auto simp: target_path_def)
qed

lemma target_path_fixed:
  assumes "target_path w a = Inr t"
  shows "(\<forall>x tgt. prefix x t \<longrightarrow> lstat (w_fs w) x \<noteq> Some (Link tgt)) \<and> ''..'' \<notin> set t"
proof -
  from target_path_resolve [OF assms] obtain x where "realpath MAXSYMLINKS (w_fs w) [] x = Some t"
    by (auto simp: resolve_def split: option.splits)
  from realpath_no_links [OF this] show ?thesis by (simp add: lstat_def)
qed

lemma target_is_dir:
  assumes "target_path w a = Inr t" and "is_dir (w_fs w) t"
  shows "lstat (w_fs w) t = Some Dir"
proof -
  have "realpath MAXSYMLINKS (w_fs w) [] t = Some t"
    using realpath_resolved [of "[]" t "w_fs w" MAXSYMLINKS] target_path_fixed [OF assms(1)] by simp
  then show ?thesis using assms(2) by (auto simp: is_dir_def stat_def split: option.splits node.splits)
qed

lemma main_deletion_run:
  assumes "target_path w a = Inr t" and "r_exit (main w a answer) = Returned"
    and "all_files (w_fs w) t \<noteq> []"
  shows "is_dir (w_fs w) t"
    and "r_fs (main w a answer) =
          fst (fold (delete_dir (w_denied w) t) (all_dirs (w_fs w) t)
                 (fold (delete_file (w_denied w) t) (all_files (w_fs w) t) (w_fs w, [])))"
    and "r_log (main w a answer) =
          snd (fold (delete_dir (w_denied w) t) (all_dirs (w_fs w) t)
                 (fold (delete_file (w_denied w) t) (all_files (w_fs w) t) (w_fs w, [])))
          @ [(INFO, Completed)]"
  using assms by (auto simp: main_def Let_def split: if_splits)

lemma rglob_iff: "p \<in> set (rglob fs t) \<longleftrightarrow> strict_prefix t p \<and> lstat fs p \<noteq> None"
proof -
  have "strict_prefix t p \<Longrightarrow> p \<noteq> []" by auto
  then show ?thesis using in_keys_lstat [of p fs] by (auto simp: rglob_def)
qed

lemma is_file_below_target:
  assumes "target_path w a = Inr t" and "lstat (w_fs w) (t @ [c]) = Some nd" and "c \<noteq> ''..''"
    and "\<forall>tgt. nd \<noteq> Link tgt"
  shows "stat (w_fs w) (t @ [c]) = Some nd"
proof -
  note tf = target_path_fixed [OF assms(1)]
  have "\<forall>x tgt. prefix x ([] @ t @ [c]) \<longrightarrow> lstat (w_fs w) x \<noteq> Some (Link tgt)"
    using tf assms(2,4) by auto
  moreover have "''..'' \<notin> set (t @ [c])" using tf assms(3) by auto
  ultimately have "realpath MAXSYMLINKS (w_fs w) [] (t @ [c]) = Some ([] @ t @ [c])"
    by (rule realpath_resolved)
  then show ?thesis using assms(2,4) by (cases nd) (auto simp: stat_def)
qed

section \<open>Skipped and failed entries stay\<close>

lemma delete_file_record:
  "\<exists>r. snd (delete_file den t p s) = snd s @ [r] \<and> entry_of (snd r) = Some (AsFile, p)
     \<and> (fst r \<noteq> INFO \<longrightarrow> fst (delete_file den t p s) = fst s)"
  by (auto simp: delete_file_def split: sum.splits)

lemma delete_dir_record:
  "\<exists>r. snd (delete_dir den t p s) = snd s @ [r] \<and> entry_of (snd r) = Some (AsDir, p)
     \<and> (fst r \<noteq> INFO \<longrightarrow> fst (delete_dir den t p s) = fst s)"
  by (auto simp: delete_dir_def split: sum.splits)

lemma fold_delete_file_records:
  assumes "r \<in> set (snd (fold (delete_file den t) ps s))" and "r \<notin> set (snd s)"
  shows "\<exists>p \<in> set ps. entry_of (snd r) = Some (AsFile, p)"
  using assms
proof (induction ps arbitrary: s)
  case Nil
  then show ?case by simp
next
  case (Cons x xs)
  obtain r0 where r0: "snd (delete_file den t x s) = snd s @ [r0]"
    "entry_of (snd r0) = Some (AsFile, x)"
    using delete_file_record by blast
  show ?case
  proof (cases "r \<in> set (snd (delete_file den t x s))")
    case True
    then have "r = r0" using r0(1) Cons.prems(2) by simp
    then show ?thesis using r0(2) by simp
  next
    case False
    then show ?thesis using Cons.IH [of "delete_file den t x s"] Cons.prems(1) by simp
  qed
qed

lemma fold_delete_dir_records:
  assumes "r \<in> set (snd (fold (delete_dir den t) ps s))" and "r \<notin> set (snd s)"
  shows "\<exists>p \<in> set ps. entry_of (snd r) = Some (AsDir, p)"
  using assms
proof (induction ps arbitrary: s)
  case Nil
  then show ?case by simp
next
  case (Cons x xs)
  obtain r0 where r0: "snd (delete_dir den t x s) = snd s @ [r0]"
    "entry_of (snd r0) = Some (AsDir, x)"
    using delete_dir_record by blast
  show ?case
  proof (cases "r \<in> set (snd (delete_dir den t x s))")
    case True
    then have "r = r0" using r0(1) Cons.prems(2) by simp
    then show ?thesis using r0(2) by simp
  next
    case False
    then show ?thesis using Cons.IH [of "delete_dir den t x s"] Cons.prems(1) by simp
  qed
qed

lemma fold_delete_file_skipped:
  assumes "r \<in> set (snd (fold (delete_file den t) ps s))" and "r \<notin> set (snd s)"
    and "entry_of (snd r) = Some (k, p)" and "fst r \<noteq> INFO" and "distinct ps"
  shows "lstat (fst (fold (delete_file den t) ps s)) p = lstat (fst s) p"
  using assms(1,2,5)
proof (induction ps arbitrary: s)
  case Nil
  then show ?case by simp
next
  case (Cons x xs)
  let ?s1 = "delete_file den t x s"
  obtain r0 where r0: "snd ?s1 = snd s @ [r0]" "entry_of (snd r0) = Some (AsFile, x)"
    "fst r0 \<noteq> INFO \<longrightarrow> fst ?s1 = fst s"
    using delete_file_record by blast
  show ?case
  proof (cases "r \<in> set (snd ?s1)")
    case True
    then have eq: "r = r0" using r0(1) Cons.prems(2) by simp
    then have "x = p" using r0(2) assms(3) by simp
    then have "p \<notin> set xs" using Cons.prems(3) by simp
    then have "lstat (fst (fold (delete_file den t) xs ?s1)) p = lstat (fst ?s1) p"
      by (rule fold_delete_file_frame)
    moreover have "fst ?s1 = fst s" using r0(3) eq assms(4) by simp
    ultimately show ?thesis by simp
  next
    case False
    then have "lstat (fst (fold (delete_file den t) xs ?s1)) p = lstat (fst ?s1) p"
      using Cons.IH [of ?s1] Cons.prems(1,3) by simp
    moreover have "x \<noteq> p"
    proof
      assume "x = p"
      then have "p \<notin> set xs" using Cons.prems(3) by simp
      moreover obtain y where "y \<in> set xs" "entry_of (snd r) = Some (AsFile, y)"
        using fold_delete_file_records [of r den t xs ?s1] False Cons.prems(1) by auto
      ultimately show False using assms(3) by auto
    qed
    then have "lstat (fst ?s1) p = lstat (fst s) p" by (simp add: delete_file_frame)
    ultimately show ?thesis by simp
  qed
qed

lemma fold_delete_dir_skipped:
  assumes "r \<in> set (snd (fold (delete_dir den t) ps s))" and "r \<notin> set (snd s)"
    and "entry_of (snd r) = Some (k, p)" and "fst r \<noteq> INFO" and "distinct ps"
  shows "lstat (fst (fold (delete_dir den t) ps s)) p = lstat (fst s) p"
  using assms(1,2,5)
proof (induction ps arbitrary: s)
  case Nil
  then show ?case by simp
next
  case (Cons x xs)
  let ?s1 = "delete_dir den t x s"
  obtain r0 where r0: "snd ?s1 = snd s @ [r0]" "entry_of (snd r0) = Some (AsDir, x)"
    "fst r0 \<noteq> INFO \<longrightarrow> fst ?s1 = fst s"
    using delete_dir_record by blast
  show ?case
  proof (cases "r \<in> set (snd ?s1)")
    case True
    then have eq: "r = r0" using r0(1) Cons.prems(2) by simp
    then have "x = p" using r0(2) assms(3) by simp
    then have "p \<notin> set xs" using Cons.prems(3) by simp
    then have "lstat (fst (fold (delete_dir den t) xs ?s1)) p = lstat (fst ?s1) p"
      by (rule fold_delete_dir_frame)
    moreover have "fst ?s1 = fst s" using r0(3) eq assms(4) by simp
    ultimately show ?thesis by simp
  next
    case False
    then have "lstat (fst (fold (delete_dir den t) xs ?s1)) p = lstat (fst ?s1) p"
      using Cons.IH [of ?s1] Cons.prems(1,3) by simp
    moreover have "x \<noteq> p"
    proof
      assume "x = p"
      then have "p \<notin> set xs" using Cons.prems(3) by simp
      moreover obtain y where "y \<in> set xs" "entry_of (snd r) = Some (AsDir, y)"
        using fold_delete_dir_records [of r den t xs ?s1] False Cons.prems(1) by auto
      ultimately show False using assms(3) by auto
    qed
    then have "lstat (fst ?s1) p = lstat (fst s) p" by (simp add: delete_dir_frame)
    ultimately show ?thesis by simp
  qed
qed

lemma distinct_scan:
  assumes "distinct (map fst fs)"
  shows "distinct (all_files fs t)" and "distinct (all_dirs fs t)"
    and "set (all_files fs t) \<inter> set (all_dirs fs t) = {}"
  using assms by (auto simp: all_files_def all_dirs_def rglob_def is_file_def is_dir_def)

lemma main_skipped_survives:
  assumes tp: "target_path w a = Inr t" and dist: "distinct (map fst (w_fs w))"
    and r: "r \<in> set (r_log (main w a answer))" and lv: "fst r = WARNING"
    and e: "entry_of (snd r) = Some (k, p)"
  shows "lstat (r_fs (main w a answer)) p = lstat (w_fs w) p \<and> lstat (w_fs w) p \<noteq> None"
proof -
  let ?fs = "w_fs w" and ?den = "w_denied w"
  let ?F = "all_files ?fs t" and ?D = "all_dirs ?fs t"
  let ?s1 = "fold (delete_file ?den t) ?F (?fs, [])"
  let ?s2 = "fold (delete_dir ?den t) ?D ?s1"
  note ds = distinct_scan [OF dist, of t]
  have ni: "fst r \<noteq> INFO" using lv by simp
  have run: "r_fs (main w a answer) = fst ?s2" "r \<in> set (snd ?s2)"
    using tp r lv by (auto simp: main_def Let_def split: if_splits)
  show ?thesis
  proof (cases "r \<in> set (snd ?s1)")
    case True
    then have "lstat (fst ?s1) p = lstat ?fs p"
      using fold_delete_file_skipped [of r ?den t ?F "(?fs, [])" k p] e ni ds(1) by simp
    moreover obtain x where x: "x \<in> set ?F" "entry_of (snd r) = Some (AsFile, x)"
      using fold_delete_file_records [of r ?den t ?F "(?fs, [])"] True by auto
    then have pF: "p \<in> set ?F" using e by simp
    then have "p \<notin> set ?D" using ds(3) by auto
    then have "lstat (fst ?s2) p = lstat (fst ?s1) p" by (rule fold_delete_dir_frame)
    moreover have "lstat ?fs p \<noteq> None" using pF by (simp add: all_files_def rglob_iff)
    ultimately show ?thesis using run(1) by simp
  next
    case False
    then have "lstat (fst ?s2) p = lstat (fst ?s1) p"
      using fold_delete_dir_skipped [of r ?den t ?D ?s1 k p] run(2) e ni ds(2) by simp
    moreover obtain x where x: "x \<in> set ?D" "entry_of (snd r) = Some (AsDir, x)"
      using fold_delete_dir_records [of r ?den t ?D ?s1] False run(2) by auto
    then have pD: "p \<in> set ?D" using e by simp
    then have "p \<notin> set ?F" using ds(3) by auto
    then have "lstat (fst ?s1) p = lstat ?fs p" by (simp add: fold_delete_file_frame)
    moreover have "lstat ?fs p \<noteq> None" using pD by (simp add: all_dirs_def rglob_iff)
    ultimately show ?thesis using run(1) by simp
  qed
qed

section \<open>The claims\<close>

text \<open>
  C1. Whatever the run does, every location that is not strictly below the resolved
  target directory holds after the run what it held before (the run log is written next
  to the script and is kept apart from the file system here). In each iteration of either
  loop, in whatever state the loop has reached, an entry whose resolved path is not
  relative to the target is left in place and a warning is logged for it. And where no
  two entries share a location, an entry for which the run logged such a warning is
  still there after the run, unchanged.
\<close>

theorem outside_target_untouched:
  assumes "target_path w a = Inr t"
  shows "(\<forall>q. \<not> strict_prefix t q \<longrightarrow> lstat (r_fs (main w a answer)) q = lstat (w_fs w) q)
    \<and> (\<forall>den p s q. resolve (fst s) p = Inr q \<and> \<not> is_relative_to q t \<longrightarrow>
          delete_file den t p s = (fst s, snd s @ [(WARNING, SkippingFile p)])
          \<and> delete_dir den t p s = (fst s, snd s @ [(WARNING, SkippingDir p)]))
    \<and> (distinct (map fst (w_fs w)) \<longrightarrow>
          (\<forall>p. (WARNING, SkippingFile p) \<in> set (r_log (main w a answer))
                 \<or> (WARNING, SkippingDir p) \<in> set (r_log (main w a answer)) \<longrightarrow>
               lstat (r_fs (main w a answer)) p = lstat (w_fs w) p \<and> lstat (w_fs w) p \<noteq> None))"
proof -
  have "lstat (r_fs (main w a answer)) p = lstat (w_fs w) p \<and> lstat (w_fs w) p \<noteq> None"
    if "distinct (map fst (w_fs w))"
      and "(WARNING, SkippingFile p) \<in> set (r_log (main w a answer))
           \<or> (WARNING, SkippingDir p) \<in> set (r_log (main w a answer))" for p
  proof -
    from that(2) obtain r k where "r \<in> set (r_log (main w a answer))" and "fst r = WARNING"
      and "entry_of (snd r) = Some (k, p)"
      by (elim disjE) force+
    then show ?thesis by (rule main_skipped_survives [OF assms that(1)])
  qed
  then show ?thesis
    using assms main_frame delete_file_skip delete_dir_skip by blast
qed

theorem outside_target_untouched_witness:
  "target_path (ex_world ex_fs_link []) (ex_args None True) = Inr ex_target
   \<and> resolve ex_fs_link (ex_target @ [''l'']) = Inr [''srv'', ''f'']
   \<and> lstat (r_fs (main (ex_world ex_fs_link []) (ex_args None True) True)) [''srv'', ''f'']
       = Some File
   \<and> delete_file [] ex_target (ex_target @ [''l'']) (ex_fs_link, [])
       = (ex_fs_link, [(WARNING, SkippingFile (ex_target @ [''l'']))])
   \<and> distinct (map fst ex_fs_link)
   \<and> (WARNING, SkippingFile (ex_target @ [''l'']))
       \<in> set (r_log (main (ex_world ex_fs_link []) (ex_args None True) True))
   \<and> lstat (r_fs (main (ex_world ex_fs_link []) (ex_args None True) True)) (ex_target @ [''l''])
       = Some (Link [''srv'', ''f''])"
proof -
  let ?w = "ex_world ex_fs_link []" and ?a = "ex_args None True"
  have fs: "w_fs ?w = ex_fs_link" by (simp add: ex_world_def)
  have h1: "target_path ?w ?a = Inr ex_target" by code_simp
  have h2: "\<not> strict_prefix ex_target [''srv'', ''f'']" by code_simp
  have h3: "lstat (w_fs ?w) [''srv'', ''f''] = Some File" by code_simp
  have h4: "resolve (fst (ex_fs_link, [])) (ex_target @ [''l'']) = Inr [''srv'', ''f'']"
    by code_simp
  have h5: "\<not> is_relative_to [''srv'', ''f''] ex_target" by code_simp
  have h6: "distinct (map fst (w_fs ?w))" by code_simp
  have h7: "(WARNING, SkippingFile (ex_target @ [''l''])) \<in> set (r_log (main ?w ?a True))"
    by code_simp
  have h8: "lstat (w_fs ?w) (ex_target @ [''l'']) = Some (Link [''srv'', ''f''])" by code_simp
  note th = outside_target_untouched [OF h1, of True]
  have "lstat (r_fs (main ?w ?a True)) [''srv'', ''f''] = Some File"
    using th h2 h3 by simp
  moreover have "delete_file [] ex_target (ex_target @ [''l'']) (ex_fs_link, [])
       = (ex_fs_link, [(WARNING, SkippingFile (ex_target @ [''l'']))])"
    using th h4 h5 by (metis append_Nil fst_conv snd_conv)
  moreover have "lstat (r_fs (main ?w ?a True)) (ex_target @ [''l''])
       = Some (Link [''srv'', ''f''])"
    using th h6 h7 h8 by simp
  ultimately show ?thesis using h1 h4 h6 h7 fs by simp
qed

text \<open>
  C2. The number in the summary's "Files Deleted" row is the number of files the scan
  found, whatever happened to them. The witness is a run over one file that cannot be
  removed and one link that points outside the target: nothing is deleted, the log holds
  an error and a warning, and the row reads 2.
\<close>

theorem files_deleted_row_is_scan_total:
  assumes "SummaryTable t n lp \<in> set (r_console (main w a answer))"
  shows "target_path w a = Inr t \<and> n = length (all_files (w_fs w) t)"
  using assms by (auto simp: main_def Let_def split: sum.splits if_splits)

theorem files_deleted_row_is_scan_total_witness:
  "SummaryTable ex_target 2 [''opt'', ''tool'', ''delete_cache.log'']
     \<in> set (r_console (main (ex_world ex_fs_link [ex_target @ [''a.dat'']]) (ex_args None True) True))
   \<and> length (all_files ex_fs_link ex_target) = 2
   \<and> r_fs (main (ex_world ex_fs_link [ex_target @ [''a.dat'']]) (ex_args None True) True)
       = ex_fs_link
   \<and> r_log (main (ex_world ex_fs_link [ex_target @ [''a.dat'']]) (ex_args None True) True)
       = [(ERROR, FailedFile (ex_target @ [''a.dat'']) PermissionError),
          (WARNING, SkippingFile (ex_target @ [''l''])), (INFO, Completed)]"
proof -
  have h1: "SummaryTable ex_target 2 [''opt'', ''tool'', ''delete_cache.log'']
     \<in> set (r_console (main (ex_world ex_fs_link [ex_target @ [''a.dat'']]) (ex_args None True) True))"
    by code_simp
  have h2: "r_fs (main (ex_world ex_fs_link [ex_target @ [''a.dat'']]) (ex_args None True) True)
       = ex_fs_link"
    by code_simp
  have h3: "r_log (main (ex_world ex_fs_link [ex_target @ [''a.dat'']]) (ex_args None True) True)
       = [(ERROR, FailedFile (ex_target @ [''a.dat'']) PermissionError),
          (WARNING, SkippingFile (ex_target @ [''l''])), (INFO, Completed)]"
    by code_simp
  have "length (all_files (w_fs (ex_world ex_fs_link [ex_target @ [''a.dat'']])) ex_target) = 2"
    using files_deleted_row_is_scan_total [OF h1] by simp
  then have "length (all_files ex_fs_link ex_target) = 2"
    by (simp add: ex_world_def)
  then show ?thesis using h1 h2 h3 by simp
qed

text \<open>
  C3, as amended. Take a well-formed file system and a run that passes the gate and the
  confirmation, finds at least one file, and logs neither a warning nor an error. Then
  every file and every directory the scan found is gone, the target directory itself is
  still a directory, and a scan of the target after the run finds no file and no
  directory.
\<close>

theorem clean_run_removes_scanned_entries:
  assumes tp: "target_path w a = Inr t"
    and wf: "well_formed (w_fs w)"
    and ret: "r_exit (main w a answer) = Returned"
    and files: "all_files (w_fs w) t \<noteq> []"
    and clean: "list_all (\<lambda>r. fst r = INFO) (r_log (main w a answer))"
  shows "(\<forall>p \<in> set (all_files (w_fs w) t) \<union> set (all_dirs (w_fs w) t).
            lstat (r_fs (main w a answer)) p = None)
    \<and> lstat (r_fs (main w a answer)) t = Some Dir
    \<and> all_files (r_fs (main w a answer)) t = []
    \<and> all_dirs (r_fs (main w a answer)) t = []"
proof -
  let ?fs = "w_fs w" and ?den = "w_denied w"
  let ?F = "all_files ?fs t" and ?D = "all_dirs ?fs t"
  let ?s1 = "fold (delete_file ?den t) ?F (?fs, [])"
  let ?s2 = "fold (delete_dir ?den t) ?D ?s1"
  let ?fs' = "r_fs (main w a answer)"
  note run = main_deletion_run [OF tp ret files]
  have fs': "?fs' = fst ?s2" by (rule run(2))
  have "list_all (\<lambda>r. fst r = INFO) (snd ?s2)" using clean run(3) by simp
  moreover have nF: "[] \<notin> set ?F" and nD: "[] \<notin> set ?D"
    using all_files_below all_dirs_below by fastforce+
  ultimately have d: "\<forall>p \<in> set ?D. lstat (fst ?s2) p = None"
    and c1: "list_all (\<lambda>r. fst r = INFO) (snd ?s1)"
    using fold_delete_dir_clean [of ?den t ?D ?s1] by auto
  have f1: "\<forall>p \<in> set ?F. lstat (fst ?s1) p = None"
    using fold_delete_file_clean [OF c1 nF] by simp
  have f: "\<forall>p \<in> set ?F. lstat (fst ?s2) p = None"
  proof
    fix p assume "p \<in> set ?F"
    then have "lstat (fst ?s1) p = None" using f1 by simp
    then show "lstat (fst ?s2) p = None"
      using fold_delete_dir_sub [of ?den t ?D ?s1 p] by (cases "lstat (fst ?s2) p") auto
  qed
  have gone: "\<forall>p \<in> set ?F \<union> set ?D. lstat ?fs' p = None"
    using f d fs' by auto
  have "lstat ?fs' t = lstat ?fs t"
    using main_frame [OF _ tp, of t answer] by simp
  then have tgt: "lstat ?fs' t = Some Dir"
    using target_is_dir [OF tp run(1)] by simp
  have wf': "well_formed ?fs'"
    unfolding fs' using wf by (simp add: fold_delete_dir_wf fold_delete_file_wf)
  have sub: "lstat ?fs q = Some n" if "lstat ?fs' q = Some n" for q n
    using that unfolding fs'
    by (metis fold_delete_dir_sub fold_delete_file_sub fst_conv)
  have left: "stat ?fs' p \<noteq> Some File \<and> stat ?fs' p \<noteq> Some Dir" if p: "p \<in> set (rglob ?fs' t)" for p
  proof -
    from p have sp: "strict_prefix t p" and ex: "lstat ?fs' p \<noteq> None" by (auto simp: rglob_iff)
    then obtain n where n: "lstat ?fs' p = Some n" by auto
    then have "lstat ?fs p = Some n" by (rule sub)
    then have old: "p \<in> set (rglob ?fs t)" using sp by (simp add: rglob_iff)
    have "p \<noteq> []" using sp by auto
    then have dd: "''..'' \<notin> set p"
      using wf_entry(2) [OF wf' lstat_SomeD [OF n]] by simp
    have "stat ?fs p = Some k" if "stat ?fs' p = Some k" for k
      using stat_mono [OF wf' sub that dd] by simp
    moreover have "stat ?fs p \<noteq> Some File"
    proof
      assume "stat ?fs p = Some File"
      then have "p \<in> set ?F" using old by (simp add: all_files_def is_file_def)
      then show False using gone ex by auto
    qed
    moreover have "stat ?fs p \<noteq> Some Dir"
    proof
      assume "stat ?fs p = Some Dir"
      then have "p \<in> set ?D" using old by (simp add: all_dirs_def is_dir_def)
      then show False using gone ex by auto
    qed
    ultimately show ?thesis by auto
  qed
  have "all_files ?fs' t = []"
    using left by (auto simp: all_files_def is_file_def filter_empty_conv)
  moreover have "all_dirs ?fs' t = []"
    using left by (auto simp: all_dirs_def is_dir_def filter_empty_conv)
  ultimately show ?thesis using gone tgt by simp
qed

theorem clean_run_removes_scanned_entries_witness:
  "well_formed ex_fs_deep
   \<and> r_exit (main (ex_world ex_fs_deep []) (ex_args None False) True) = Returned
   \<and> all_files ex_fs_deep ex_target = [ex_target @ [''sub'', ''inner'', ''x.dat''], ex_target @ [''y.dat'']]
   \<and> list_all (\<lambda>r. fst r = INFO) (r_log (main (ex_world ex_fs_deep []) (ex_args None False) True))
   \<and> lstat (r_fs (main (ex_world ex_fs_deep []) (ex_args None False) True))
        (ex_target @ [''sub'', ''inner'', ''x.dat'']) = None
   \<and> lstat (r_fs (main (ex_world ex_fs_deep []) (ex_args None False) True)) (ex_target @ [''sub'']) = None
   \<and> lstat (r_fs (main (ex_world ex_fs_deep []) (ex_args None False) True)) ex_target = Some Dir
   \<and> all_files (r_fs (main (ex_world ex_fs_deep []) (ex_args None False) True)) ex_target = []
   \<and> all_dirs (r_fs (main (ex_world ex_fs_deep []) (ex_args None False) True)) ex_target = []"
proof -
  let ?w = "ex_world ex_fs_deep []" and ?a = "ex_args None False"
  have fs: "w_fs ?w = ex_fs_deep" by (simp add: ex_world_def)
  have h1: "target_path ?w ?a = Inr ex_target" by code_simp
  have h2: "well_formed (w_fs ?w)" by code_simp
  have h3: "r_exit (main ?w ?a True) = Returned" by code_simp
  have h4: "all_files (w_fs ?w) ex_target
              = [ex_target @ [''sub'', ''inner'', ''x.dat''], ex_target @ [''y.dat'']]"
    by code_simp
  then have h4': "all_files (w_fs ?w) ex_target \<noteq> []" by simp
  have h5: "list_all (\<lambda>r. fst r = INFO) (r_log (main ?w ?a True))" by code_simp
  have h6: "ex_target @ [''sub''] \<in> set (all_dirs (w_fs ?w) ex_target)" by code_simp
  note th = clean_run_removes_scanned_entries [OF h1 h2 h3 h4' h5]
  have "lstat (r_fs (main ?w ?a True)) (ex_target @ [''sub'', ''inner'', ''x.dat'']) = None"
    using th h4 by simp
  moreover have "lstat (r_fs (main ?w ?a True)) (ex_target @ [''sub'']) = None"
    using th h6 by blast
  ultimately show ?thesis using th h2 h3 h4 h5 fs by simp
qed

text \<open>
  The claim C3 as it is written fails in two ways. After a run over one file and a
  dangling link, with nothing but successes in the log, the target directory is still
  there, and so is the link below it. After a run that finds no file, no deletion was
  attempted, none failed, and a scan still finds the empty subdirectory.
\<close>

theorem target_and_empty_subdir_survive:
  "list_all (\<lambda>r. fst r = INFO) (r_log (main (ex_world ex_fs_dangling []) (ex_args None True) True))
   \<and> r_log (main (ex_world ex_fs_dangling []) (ex_args None True) True)
       = [(INFO, DeletedFile (ex_target @ [''a.dat''])), (INFO, Completed)]
   \<and> lstat (r_fs (main (ex_world ex_fs_dangling []) (ex_args None True) True)) ex_target = Some Dir
   \<and> lstat (r_fs (main (ex_world ex_fs_dangling []) (ex_args None True) True)) (ex_target @ [''gone''])
       = Some (Link [''srv'', ''missing''])
   \<and> r_exit (main (ex_world ex_fs_sub []) (ex_args None True) True) = Returned
   \<and> r_log (main (ex_world ex_fs_sub []) (ex_args None True) True) = [(INFO, NoFiles)]
   \<and> all_dirs (r_fs (main (ex_world ex_fs_sub []) (ex_args None True) True)) ex_target
       = [ex_target @ [''sub'']]"
  by code_simp

text \<open>
  C4. Let the target hold exactly \<open>a.dat\<close> and \<open>b.dat\<close>, both regular files, and the
  directory \<open>sub\<close> with nothing in it. After a run that passes the gate and the
  confirmation and logs neither a warning nor an error, the summary reports 2 files,
  \<open>sub\<close> and the two files are gone, and the target is still a directory.
\<close>

theorem example_two_files_one_subdir:
  assumes tp: "target_path w a = Inr t"
    and ret: "r_exit (main w a answer) = Returned"
    and content: "set (rglob (w_fs w) t) = {t @ [''a.dat''], t @ [''b.dat''], t @ [''sub'']}"
      "distinct (rglob (w_fs w) t)"
    and kinds: "lstat (w_fs w) (t @ [''a.dat'']) = Some File"
      "lstat (w_fs w) (t @ [''b.dat'']) = Some File" "lstat (w_fs w) (t @ [''sub'']) = Some Dir"
    and clean: "list_all (\<lambda>r. fst r = INFO) (r_log (main w a answer))"
  shows "last (r_console (main w a answer)) = SummaryTable t 2 (log_path w)
    \<and> lstat (r_fs (main w a answer)) (t @ [''sub'']) = None
    \<and> lstat (r_fs (main w a answer)) (t @ [''a.dat'']) = None
    \<and> lstat (r_fs (main w a answer)) (t @ [''b.dat'']) = None
    \<and> lstat (r_fs (main w a answer)) t = Some Dir"
proof -
  let ?fs = "w_fs w" and ?den = "w_denied w"
  let ?F = "all_files ?fs t" and ?D = "all_dirs ?fs t"
  let ?s1 = "fold (delete_file ?den t) ?F (?fs, [])"
  let ?s2 = "fold (delete_dir ?den t) ?D ?s1"
  have a: "is_file ?fs (t @ [''a.dat''])" and b: "is_file ?fs (t @ [''b.dat''])"
    and s: "is_dir ?fs (t @ [''sub''])"
    using is_file_below_target [OF tp kinds(1)] is_file_below_target [OF tp kinds(2)]
      is_file_below_target [OF tp kinds(3)] by (simp_all add: is_file_def is_dir_def)
  then have ns: "\<not> is_file ?fs (t @ [''sub''])" by (simp add: is_file_def is_dir_def)
  have setF: "set ?F = {t @ [''a.dat''], t @ [''b.dat'']}"
    using a b ns content(1) by (auto simp: all_files_def)
  have "distinct ?F" using content(2) by (simp add: all_files_def)
  then have "length ?F = card {t @ [''a.dat''], t @ [''b.dat'']}"
    using setF distinct_card by fastforce
  then have len: "length ?F = 2" by simp
  then have ne: "?F \<noteq> []" by auto
  have subD: "t @ [''sub''] \<in> set ?D"
    using s content(1) by (simp add: all_dirs_def)
  note run = main_deletion_run [OF tp ret ne]
  have con: "last (r_console (main w a answer)) = SummaryTable t 2 (log_path w)"
    using tp ret ne len by (auto simp: main_def Let_def split: if_splits)
  have "list_all (\<lambda>r. fst r = INFO) (snd ?s2)" using clean run(3) by simp
  moreover have nF: "[] \<notin> set ?F" and nD: "[] \<notin> set ?D"
    using all_files_below all_dirs_below by fastforce+
  ultimately have d: "\<forall>p \<in> set ?D. lstat (fst ?s2) p = None"
    and c1: "list_all (\<lambda>r. fst r = INFO) (snd ?s1)"
    using fold_delete_dir_clean [of ?den t ?D ?s1] by auto
  have f1: "\<forall>p \<in> set ?F. lstat (fst ?s1) p = None"
    using fold_delete_file_clean [OF c1 nF] by simp
  have f: "lstat (fst ?s2) p = None" if "p \<in> set ?F" for p
  proof -
    have "lstat (fst ?s1) p = None" using f1 that by simp
    then show ?thesis
      using fold_delete_dir_sub [of ?den t ?D ?s1 p] by (cases "lstat (fst ?s2) p") auto
  qed
  have "lstat (r_fs (main w a answer)) t = lstat ?fs t"
    using main_frame [OF _ tp, of t answer] by simp
  then have tgt: "lstat (r_fs (main w a answer)) t = Some Dir"
    using target_is_dir [OF tp run(1)] by simp
  show ?thesis using con d subD f setF tgt run(2) by simp
qed

theorem example_two_files_one_subdir_witness:
  "r_exit (main (ex_world ex_fs_abc []) (ex_args None False) True) = Returned
   \<and> set (rglob ex_fs_abc ex_target)
       = {ex_target @ [''a.dat''], ex_target @ [''b.dat''], ex_target @ [''sub'']}
   \<and> list_all (\<lambda>r. fst r = INFO) (r_log (main (ex_world ex_fs_abc []) (ex_args None False) True))
   \<and> last (r_console (main (ex_world ex_fs_abc []) (ex_args None False) True))
       = SummaryTable ex_target 2 [''opt'', ''tool'', ''delete_cache.log'']
   \<and> lstat (r_fs (main (ex_world ex_fs_abc []) (ex_args None False) True)) (ex_target @ [''sub'']) = None
   \<and> lstat (r_fs (main (ex_world ex_fs_abc []) (ex_args None False) True)) ex_target = Some Dir"
proof -
  let ?w = "ex_world ex_fs_abc []" and ?a = "ex_args None False"
  have fs: "w_fs ?w = ex_fs_abc" by (simp add: ex_world_def)
  have h1: "target_path ?w ?a = Inr ex_target" by code_simp
  have h2: "r_exit (main ?w ?a True) = Returned" by code_simp
  have h3: "set (rglob (w_fs ?w) ex_target)
       = {ex_target @ [''a.dat''], ex_target @ [''b.dat''], ex_target @ [''sub'']}" by code_simp
  have h4: "distinct (rglob (w_fs ?w) ex_target)" by code_simp
  have h5: "lstat (w_fs ?w) (ex_target @ [''a.dat'']) = Some File" by code_simp
  have h6: "lstat (w_fs ?w) (ex_target @ [''b.dat'']) = Some File" by code_simp
  have h7: "lstat (w_fs ?w) (ex_target @ [''sub'']) = Some Dir" by code_simp
  have h8: "list_all (\<lambda>r. fst r = INFO) (r_log (main ?w ?a True))" by code_simp
  have h9: "log_path ?w = [''opt'', ''tool'', ''delete_cache.log'']" by code_simp
  from example_two_files_one_subdir [OF h1 h2 h3 h4 h5 h6 h7 h8] h2 h3 h8 h9 fs
  show ?thesis by simp
qed

text \<open>
  C5. When the run handles a directory (the \<open>j\<close>-th entry it handles), every file of the
  scan has been handled before it, and so has every directory of the scan that lies below
  it. The directories are taken in descending order of the length of their path strings,
  and the path string of anything below a handled directory is strictly longer than the
  directory's own.
\<close>

theorem descendants_handled_first:
  assumes "target_path w a = Inr t"
    and "j < length (processed (r_log (main w a answer)))"
    and "processed (r_log (main w a answer)) ! j = (AsDir, d)"
  shows "(\<forall>f \<in> set (all_files (w_fs w) t).
            (AsFile, f) \<in> set (take j (processed (r_log (main w a answer)))))
    \<and> (\<forall>x \<in> set (all_dirs (w_fs w) t). strict_prefix d x \<longrightarrow>
            (AsDir, x) \<in> set (take j (processed (r_log (main w a answer)))))
    \<and> sorted (map (\<lambda>p. - int (length (path_str p))) (all_dirs (w_fs w) t))
    \<and> (\<forall>x. strict_prefix d x \<longrightarrow> length (path_str d) < length (path_str x))"
proof -
  let ?P = "processed (r_log (main w a answer))"
  let ?fs = "all_files (w_fs w) t" and ?ds = "all_dirs (w_fs w) t"
  have P: "?P = map (Pair AsFile) ?fs @ map (Pair AsDir) ?ds"
    using processed_main [of w a answer] assms by auto
  have jge: "length ?fs \<le> j"
  proof (rule ccontr)
    assume "\<not> length ?fs \<le> j"
    then have "?P ! j = (AsFile, ?fs ! j)" by (simp add: P nth_append)
    then show False using assms(3) by simp
  qed
  define j' where "j' = j - length ?fs"
  have j': "j' < length ?ds" "?ds ! j' = d" "j = length ?fs + j'"
    using assms(2,3) jge by (auto simp: P j'_def nth_append)
  have tk: "take j ?P = map (Pair AsFile) ?fs @ map (Pair AsDir) (take j' ?ds)"
    by (simp add: P j'(3) take_map)
  have before: "\<forall>x \<in> set ?ds. strict_prefix d x \<longrightarrow> x \<in> set (take j' ?ds)"
    using dirs_order [OF j'(1)] j'(2) by blast
  have "d \<in> set ?ds" using j'(1,2) by (auto simp: in_set_conv_nth)
  then have "d \<noteq> []" using all_dirs_below [of d "w_fs w" t] by auto
  then have longer: "\<forall>x. strict_prefix d x \<longrightarrow> length (path_str d) < length (path_str x)"
    using path_str_longer by blast
  show ?thesis
    unfolding tk using before longer sorted_all_dirs [of "w_fs w" t] by auto
qed

theorem descendants_handled_first_witness:
  "target_path (ex_world ex_fs_deep []) (ex_args None True) = Inr ex_target
   \<and> processed (r_log (main (ex_world ex_fs_deep []) (ex_args None True) True)) ! 3
       = (AsDir, ex_target @ [''sub''])
   \<and> (AsFile, ex_target @ [''sub'', ''inner'', ''x.dat''])
       \<in> set (take 3 (processed (r_log (main (ex_world ex_fs_deep []) (ex_args None True) True))))
   \<and> (AsDir, ex_target @ [''sub'', ''inner''])
       \<in> set (take 3 (processed (r_log (main (ex_world ex_fs_deep []) (ex_args None True) True))))"
proof -
  let ?w = "ex_world ex_fs_deep []" and ?a = "ex_args None True"
  have h1: "target_path ?w ?a = Inr ex_target" by code_simp
  have h2: "3 < length (processed (r_log (main ?w ?a True)))" by code_simp
  have h3: "processed (r_log (main ?w ?a True)) ! 3 = (AsDir, ex_target @ [''sub''])"
    by code_simp
  have h4: "ex_target @ [''sub'', ''inner'', ''x.dat''] \<in> set (all_files (w_fs ?w) ex_target)"
    by code_simp
  have h5: "ex_target @ [''sub'', ''inner''] \<in> set (all_dirs (w_fs ?w) ex_target)"
    by code_simp
  have h6: "strict_prefix (ex_target @ [''sub'']) (ex_target @ [''sub'', ''inner''])"
    by code_simp
  show ?thesis
    using descendants_handled_first [OF h1 h2 h3] h1 h3 h4 h5 h6 by blast
qed

text \<open>
  C6, as amended. The run gets past the safety gate (it does not exit with status 1)
  exactly when the resolved target is an existing directory whose path string contains
  both \<open>CameraRaw\<close> and \<open>Cache2\<close>. A target that is an existing directory and lacks a
  marker is rejected as an unexpected path; a target that does not exist or is not a
  directory is rejected as not found, whatever its markers; both exit with status 1.
\<close>

theorem safety_gate_verdicts:
  assumes "target_path w a = Inr t"
  shows "(r_exit (main w a answer) \<noteq> SysExit 1 \<longleftrightarrow>
            sublist ''CameraRaw'' (path_str t) \<and> sublist ''Cache2'' (path_str t)
            \<and> exists (w_fs w) t \<and> is_dir (w_fs w) t)
     \<and> (exists (w_fs w) t \<and> is_dir (w_fs w) t
          \<and> (\<not> sublist ''CameraRaw'' (path_str t) \<or> \<not> sublist ''Cache2'' (path_str t)) \<longrightarrow>
            r_exit (main w a answer) = SysExit 1
            \<and> r_console (main w a answer) = [WarningPanel, TargetLine t, ErrorUnexpected])
     \<and> (\<not> (exists (w_fs w) t \<and> is_dir (w_fs w) t) \<longrightarrow>
            r_exit (main w a answer) = SysExit 1
            \<and> r_console (main w a answer) = [WarningPanel, TargetLine t, ErrorNotFound t])"
  using assms by (auto simp add: main_def Let_def)

theorem safety_gate_verdicts_witness:
  "target_path (ex_world ex_base []) (ex_args (Some ''/home/u/Adobe/CameraRaw'') True)
     = Inr [''home'', ''u'', ''Adobe'', ''CameraRaw'']
   \<and> is_dir ex_base [''home'', ''u'', ''Adobe'', ''CameraRaw'']
   \<and> \<not> sublist ''Cache2'' (path_str [''home'', ''u'', ''Adobe'', ''CameraRaw''])
   \<and> r_exit (main (ex_world ex_base []) (ex_args (Some ''/home/u/Adobe/CameraRaw'') True) True)
       = SysExit 1
   \<and> r_console (main (ex_world ex_base []) (ex_args (Some ''/home/u/Adobe/CameraRaw'') True) True)
       = [WarningPanel, TargetLine [''home'', ''u'', ''Adobe'', ''CameraRaw''], ErrorUnexpected]"
proof -
  let ?w = "ex_world ex_base []" and ?a = "ex_args (Some ''/home/u/Adobe/CameraRaw'') True"
  let ?t = "[''home'', ''u'', ''Adobe'', ''CameraRaw'']"
  have h1: "target_path ?w ?a = Inr ?t" by code_simp
  have h2: "exists (w_fs ?w) ?t" by code_simp
  have h3: "is_dir (w_fs ?w) ?t" by code_simp
  have h4: "\<not> sublist ''Cache2'' (path_str ?t)" by code_simp
  have h5: "is_dir ex_base ?t" by code_simp
  show ?thesis
    using safety_gate_verdicts [OF h1, of True] h1 h2 h3 h4 h5 by simp
qed

text \<open>
  The claim C6 as it is written fails on a target that lacks the markers and does not
  exist: \<open>/home/v\<close> is rejected as not found, not as an unexpected path.
\<close>

theorem missing_marker_missing_path_is_not_found:
  "target_path (ex_world ex_base []) (ex_args (Some ''/home/v'') True) = Inr [''home'', ''v'']
   \<and> \<not> sublist ''CameraRaw'' (path_str [''home'', ''v''])
   \<and> r_exit (main (ex_world ex_base []) (ex_args (Some ''/home/v'') True) True) = SysExit 1
   \<and> ErrorUnexpected
       \<notin> set (r_console (main (ex_world ex_base []) (ex_args (Some ''/home/v'') True) True))
   \<and> r_console (main (ex_world ex_base []) (ex_args (Some ''/home/v'') True) True)
       = [WarningPanel, TargetLine [''home'', ''v''], ErrorNotFound [''home'', ''v'']]"
  by code_simp

text \<open>
  C7. A resolved target that does not exist or is not a directory is rejected as not
  found: the run exits with status 1 after the error message, no confirmation prompt is
  shown, the file system is as it was and the log is empty.
\<close>

theorem path_not_found_rejected:
  assumes "target_path w a = Inr t"
    and "\<not> exists (w_fs w) t \<or> \<not> is_dir (w_fs w) t"
  shows "r_exit (main w a answer) = SysExit 1
     \<and> r_console (main w a answer) = [WarningPanel, TargetLine t, ErrorNotFound t]
     \<and> (\<forall>p. ConfirmPrompt p \<notin> set (r_console (main w a answer)))
     \<and> r_fs (main w a answer) = w_fs w \<and> r_log (main w a answer) = []"
  using assms by (auto simp add: main_def)

theorem path_not_found_rejected_witness:
  "target_path (ex_world ex_fs_deep []) (ex_args (Some ''Adobe/CameraRaw/Cache2/y.dat'') False)
     = Inr (ex_target @ [''y.dat''])
   \<and> \<not> is_dir ex_fs_deep (ex_target @ [''y.dat''])
   \<and> r_exit (main (ex_world ex_fs_deep []) (ex_args (Some ''Adobe/CameraRaw/Cache2/y.dat'') False) True)
       = SysExit 1
   \<and> r_console (main (ex_world ex_fs_deep []) (ex_args (Some ''Adobe/CameraRaw/Cache2/y.dat'') False) True)
       = [WarningPanel, TargetLine (ex_target @ [''y.dat'']), ErrorNotFound (ex_target @ [''y.dat''])]
   \<and> r_fs (main (ex_world ex_fs_deep []) (ex_args (Some ''Adobe/CameraRaw/Cache2/y.dat'') False) True)
       = ex_fs_deep"
proof -
  let ?w = "ex_world ex_fs_deep []" and ?a = "ex_args (Some ''Adobe/CameraRaw/Cache2/y.dat'') False"
  have h1: "target_path ?w ?a = Inr (ex_target @ [''y.dat''])" by code_simp
  have h2: "\<not> is_dir (w_fs ?w) (ex_target @ [''y.dat''])" by code_simp
  have h3: "\<not> is_dir ex_fs_deep (ex_target @ [''y.dat''])" by code_simp
  have h4: "w_fs ?w = ex_fs_deep" by (simp add: ex_world_def)
  have "\<not> exists (w_fs ?w) (ex_target @ [''y.dat'']) \<or> \<not> is_dir (w_fs ?w) (ex_target @ [''y.dat''])"
    using h2 by simp
  from path_not_found_rejected [OF h1 this, of True] h1 h3 h4 show ?thesis by simp
qed

text \<open>
  C8. If the confirmation prompt is shown and the user answers no, the run exits with
  status 0, the file system is as it was, and the log consists of one record, the
  cancellation.
\<close>

theorem declined_confirmation:
  assumes "ConfirmPrompt t \<in> set (r_console (main w a answer))" and "\<not> answer"
  shows "r_exit (main w a answer) = SysExit 0 \<and> r_fs (main w a answer) = w_fs w
     \<and> r_log (main w a answer) = [(INFO, Cancelled)]
     \<and> length (filter (\<lambda>r. snd r = Cancelled) (r_log (main w a answer))) = 1"
  using assms by (auto simp add: main_def Let_def split: sum.splits if_splits)

theorem declined_confirmation_witness:
  "ConfirmPrompt ex_target
     \<in> set (r_console (main (ex_world ex_fs_deep []) (ex_args None False) False))
   \<and> r_exit (main (ex_world ex_fs_deep []) (ex_args None False) False) = SysExit 0
   \<and> r_fs (main (ex_world ex_fs_deep []) (ex_args None False) False) = ex_fs_deep
   \<and> r_log (main (ex_world ex_fs_deep []) (ex_args None False) False) = [(INFO, Cancelled)]"
proof -
  let ?w = "ex_world ex_fs_deep []" and ?a = "ex_args None False"
  have h1: "ConfirmPrompt ex_target \<in> set (r_console (main ?w ?a False))" by code_simp
  have h2: "\<not> False" by simp
  have h3: "w_fs ?w = ex_fs_deep" by (simp add: ex_world_def)
  from declined_confirmation [OF h1 h2] h1 h3 show ?thesis by simp
qed

text \<open>
  C9. If the run passes the gate and the confirmation and the scan finds no file, it
  deletes nothing (subdirectories stay), logs that there is nothing to delete, ends with
  a summary that reports 0 files, and returns normally. The file system being unchanged,
  running again gives the same result.
\<close>

theorem no_files_skips_deletion:
  assumes "target_path w a = Inr t"
    and "exists (w_fs w) t" and "is_dir (w_fs w) t"
    and "sublist ''CameraRaw'' (path_str t)" and "sublist ''Cache2'' (path_str t)"
    and "arg_yes a \<or> answer"
    and "all_files (w_fs w) t = []"
  shows "r_exit (main w a answer) = Returned \<and> r_fs (main w a answer) = w_fs w
     \<and> r_log (main w a answer) = [(INFO, NoFiles)]
     \<and> last (r_console (main w a answer)) = SummaryTable t 0 (log_path w)
     \<and> main (w\<lparr>w_fs := r_fs (main w a answer)\<rparr>) a answer = main w a answer"
proof -
  have "r_fs (main w a answer) = w_fs w"
    using assms by (auto simp add: main_def Let_def)
  then show ?thesis
    using assms by (auto simp add: main_def Let_def)
qed

theorem no_files_skips_deletion_witness:
  "target_path (ex_world ex_fs_sub []) (ex_args None True) = Inr ex_target
   \<and> all_files ex_fs_sub ex_target = []
   \<and> r_exit (main (ex_world ex_fs_sub []) (ex_args None True) False) = Returned
   \<and> r_fs (main (ex_world ex_fs_sub []) (ex_args None True) False) = ex_fs_sub
   \<and> lstat (r_fs (main (ex_world ex_fs_sub []) (ex_args None True) False)) (ex_target @ [''sub''])
       = Some Dir
   \<and> r_log (main (ex_world ex_fs_sub []) (ex_args None True) False) = [(INFO, NoFiles)]
   \<and> last (r_console (main (ex_world ex_fs_sub []) (ex_args None True) False))
       = SummaryTable ex_target 0 [''opt'', ''tool'', ''delete_cache.log'']"
proof -
  let ?w = "ex_world ex_fs_sub []" and ?a = "ex_args None True"
  have h1: "target_path ?w ?a = Inr ex_target" by code_simp
  have h2: "exists (w_fs ?w) ex_target" by code_simp
  have h3: "is_dir (w_fs ?w) ex_target" by code_simp
  have h4: "sublist ''CameraRaw'' (path_str ex_target)" by code_simp
  have h5: "sublist ''Cache2'' (path_str ex_target)" by code_simp
  have h6: "arg_yes ?a \<or> False" by (simp add: ex_args_def)
  have h7: "all_files (w_fs ?w) ex_target = []" by code_simp
  have h8: "w_fs ?w = ex_fs_sub" by (simp add: ex_world_def)
  have h9: "lstat ex_fs_sub (ex_target @ [''sub'']) = Some Dir" by code_simp
  have h10: "log_path ?w = [''opt'', ''tool'', ''delete_cache.log'']" by code_simp
  from no_files_skips_deletion [OF h1 h2 h3 h4 h5 h6 h7] h1 h7 h8 h9 h10
  show ?thesis by simp
qed

text \<open>
  C10. With no \<open>--path\<close> argument and neither \<open>LOCALAPPDATA\<close> nor \<open>APPDATA\<close> set, the run
  ends in an uncaught \<open>TypeError\<close> right after the warning panel: it does not reach the
  checks that exit with status 1.
\<close>

theorem unset_appdata_raises_type_error:
  assumes "arg_path a = None"
    and "getenv w ''LOCALAPPDATA'' = None" and "getenv w ''APPDATA'' = None"
  shows "r_exit (main w a answer) = Raised TypeError
     \<and> r_exit (main w a answer) \<noteq> SysExit 1
     \<and> r_fs (main w a answer) = w_fs w
     \<and> r_log (main w a answer) = [] \<and> r_console (main w a answer) = [WarningPanel]"
  using assms by (simp add: main_def target_path_def truthy_def py_or_def)

theorem unset_appdata_raises_type_error_witness:
  "arg_path (ex_args None True) = None
   \<and> getenv ((ex_world ex_fs_deep []) \<lparr>w_environ := []\<rparr>) ''LOCALAPPDATA'' = None
   \<and> getenv ((ex_world ex_fs_deep []) \<lparr>w_environ := []\<rparr>) ''APPDATA'' = None
   \<and> r_exit (main ((ex_world ex_fs_deep []) \<lparr>w_environ := []\<rparr>) (ex_args None True) True)
       = Raised TypeError
   \<and> r_console (main ((ex_world ex_fs_deep []) \<lparr>w_environ := []\<rparr>) (ex_args None True) True)
       = [WarningPanel]"
proof -
  let ?w = "(ex_world ex_fs_deep []) \<lparr>w_environ := []\<rparr>"
  have h1: "arg_path (ex_args None True) = None" by (simp add: ex_args_def)
  have h2: "getenv ?w ''LOCALAPPDATA'' = None" by (simp add: getenv_def)
  have h3: "getenv ?w ''APPDATA'' = None" by (simp add: getenv_def)
  from unset_appdata_raises_type_error [OF h1 h2 h3, of True] h1 h2 h3
  show ?thesis by simp
qed

end
